theory Spec2Isabelle
  imports Main
begin

section \<open>Integer factorization: trial division and Pollard's Rho\<close>

text \<open>
  A shallow embedding of \<^verbatim>\<open>src/factor_benchmark.py\<close>. Python's integers are unbounded,
  so they are \<^typ>\<open>int\<close>; Python's \<^verbatim>\<open>%\<close> on integers is floored, as \<open>mod\<close> on
  \<^typ>\<open>int\<close> is, and \<^verbatim>\<open>math.gcd\<close> is the non-negative \<open>gcd\<close>.
\<close>

subsection \<open>Trial division\<close>

text \<open>
  The loop of \<^verbatim>\<open>trial_division_python\<close>, from the state \<open>i\<close>:
  \<^verbatim>\<open>
      while i * i <= n:
          if n % i == 0:
              return i
          i += 2
      return n
  \<close>
  The function starts it at \<open>i = 3\<close> and \<open>i\<close> only grows, so the divisor of
  \<^verbatim>\<open>n % i\<close> is never zero there.
\<close>

function trial_loop :: "int \<Rightarrow> int \<Rightarrow> int" where
  "trial_loop n i =
     (if i * i \<le> n then (if n mod i = 0 then i else trial_loop n (i + 2)) else n)"
  by pat_completeness auto
termination
proof (relation "measure (\<lambda>(n, i). nat (n + 1 - i))")
  show "wf (measure (\<lambda>(n :: int, i :: int). nat (n + 1 - i)))"
    by simp
next
  fix n i :: int
  assume sq: "i * i \<le> n"
  have "i \<le> i * i"
  proof (cases "1 \<le> i")
    case True
    then have "i * 1 \<le> i * i"
      by (intro mult_left_mono) simp_all
    then show ?thesis by simp
  next
    case False
    then have "i \<le> 0" by simp
    also have "0 \<le> i * i" by simp
    finally show ?thesis .
  qed
  with sq have "i \<le> n" by simp
  then show "((n, i + 2), (n, i)) \<in> measure (\<lambda>(n, i). nat (n + 1 - i))"
    by simp
qed

declare trial_loop.simps [simp del]

definition trial_division_python :: "int \<Rightarrow> int" where
  "trial_division_python n = (if n mod 2 = 0 then 2 else trial_loop n 3)"

subsection \<open>The random source\<close>

text \<open>
  \<^verbatim>\<open>random.randint(a, b)\<close> returns some integer of \<open>[a, b]\<close> and advances the
  generator; on an empty range it raises \<^verbatim>\<open>ValueError\<close>. The generator is an
  arbitrary sequence \<open>src\<close> of raw numbers and the position \<open>k\<close> of the next one;
  a draw reduces the raw number into the range and returns the next position.
\<close>

datatype py_error = ValueError

definition randint :: "(nat \<Rightarrow> nat) \<Rightarrow> nat \<Rightarrow> int \<Rightarrow> int \<Rightarrow> py_error + int \<times> nat" where
  "randint src k a b =
     (if b < a then Inl ValueError
      else Inr (a + int (src k mod nat (b - a + 1)), Suc k))"

subsection \<open>Pollard's Rho\<close>

text \<open>The recurrence \<^verbatim>\<open>(pow(t, 2, n) + c) % n\<close>, which the loop applies to \<open>x\<close>
  once and to \<open>y\<close> twice.\<close>

definition rho_step :: "int \<Rightarrow> int \<Rightarrow> int \<Rightarrow> int" where
  "rho_step n c t = (t ^ 2 mod n + c) mod n"

text \<open>
  How the \<^verbatim>\<open>while g == 1\<close> loop is left: by \<^verbatim>\<open>break\<close>, by
  \<^verbatim>\<open>return g\<close>, or because its condition is false.
\<close>

datatype loop_exit = Break | Return int | CondFalse

text \<open>
  \<^verbatim>\<open>
        while g == 1:
            x = (pow(x, 2, n) + c) % n
            y = (pow(y, 2, n) + c) % n
            y = (pow(y, 2, n) + c) % n
            g = math.gcd(abs(x - y), n)
            if g == n:
                break
            if g > 1:
                return g
  \<close>
  Nothing in the loop itself bounds the number of iterations, so the result is an
  option: \<open>None\<close> is a loop that runs forever.
\<close>

partial_function (option) rho_while :: "int \<Rightarrow> int \<Rightarrow> int \<Rightarrow> int \<Rightarrow> int \<Rightarrow> loop_exit option" where
  "rho_while n c x y g =
     (if g = 1 then
        (let x' = rho_step n c x;
             y' = rho_step n c (rho_step n c y);
             g' = gcd \<bar>x' - y'\<bar> n
         in if g' = n then Some Break
            else if g' > 1 then Some (Return g')
            else rho_while n c x' y' g')
      else Some CondFalse)"

declare rho_while.simps [code]

text \<open>
  The body of \<^verbatim>\<open>for _ in range(max_retries)\<close>: two draws, then the loop from
  \<open>y = x\<close> and \<open>g = 1\<close>. The result carries the position of the generator.
\<close>

definition rho_attempt :: "int \<Rightarrow> (nat \<Rightarrow> nat) \<Rightarrow> nat \<Rightarrow> (py_error + loop_exit \<times> nat) option" where
  "rho_attempt n src k =
     (case randint src k 2 (n - 1) of
        Inl e \<Rightarrow> Some (Inl e)
      | Inr (x, k1) \<Rightarrow>
          (case randint src k1 1 (n - 1) of
             Inl e \<Rightarrow> Some (Inl e)
           | Inr (c, k2) \<Rightarrow>
               (case rho_while n c x x 1 of
                  None \<Rightarrow> None
                | Some ex \<Rightarrow> Some (Inr (ex, k2)))))"

text \<open>The \<^verbatim>\<open>for\<close> loop with \<open>r\<close> iterations left, and \<^verbatim>\<open>return n\<close> after it.\<close>

fun rho_attempts :: "nat \<Rightarrow> int \<Rightarrow> (nat \<Rightarrow> nat) \<Rightarrow> nat \<Rightarrow> (py_error + int \<times> nat) option" where
  "rho_attempts 0 n src k = Some (Inr (n, k))"
| "rho_attempts (Suc r) n src k =
     (case rho_attempt n src k of
        None \<Rightarrow> None
      | Some (Inl e) \<Rightarrow> Some (Inl e)
      | Some (Inr (Return g, k')) \<Rightarrow> Some (Inr (g, k'))
      | Some (Inr (Break, k')) \<Rightarrow> rho_attempts r n src k'
      | Some (Inr (CondFalse, k')) \<Rightarrow> rho_attempts r n src k')"

definition pollards_rho :: "int \<Rightarrow> (nat \<Rightarrow> nat) \<Rightarrow> nat \<Rightarrow> (py_error + int \<times> nat) option" where
  "pollards_rho n src k =
     (if n mod 2 = 0 then Some (Inr (2, k))
      else if n mod 3 = 0 then Some (Inr (3, k))
      else (let max_retries = 5 in rho_attempts max_retries n src k))"

subsection \<open>The state machine of the specification\<close>

text \<open>
  The second model of Pollard's Rho, written from the words of section 4.3 of the
  specification and not from the code, to compare the code with:
  INIT, ITERATING, RETRY, FACTOR_FOUND and EXHAUSTED, with the RhoState \<open>x\<close>, \<open>y\<close>,
  \<open>c\<close>, \<open>g\<close> in ITERATING. Every state but EXHAUSTED carries the number of attempts
  begun so far, and all carry the position of the generator.
\<close>

text \<open>``RetryBudget: a bounded counter (default 5)''.\<close>

definition RetryBudget :: nat where
  "RetryBudget = 5"

datatype rho_machine =
    INIT nat nat
  | ITERATING nat nat int int int int
  | RETRY nat nat
  | FACTOR_FOUND int nat
  | EXHAUSTED nat

text \<open>A draw from \<open>[lo, hi]\<close>; the specification has no empty range and no exception.\<close>

definition spec_draw :: "(nat \<Rightarrow> nat) \<Rightarrow> nat \<Rightarrow> int \<Rightarrow> int \<Rightarrow> int" where
  "spec_draw src k lo hi = lo + int (src k mod nat (hi - lo + 1))"

text \<open>
  One transition. INIT draws \<open>x\<^sub>0\<close> and \<open>c\<close> and sets \<open>y := x\<^sub>0\<close>, \<open>g := 1\<close>. ITERATING
  repeats while \<open>g = 1\<close>: \<open>x := (x\<^sup>2 + c) mod n\<close>, the same twice for \<open>y\<close>,
  \<open>g := gcd(|x - y|, n)\<close>; on leaving the loop \<open>g = n\<close> goes to RETRY and \<open>1 < g < n\<close> to
  FACTOR_FOUND; the specification names no other transition (\<open>None\<close>). RETRY goes to INIT
  while attempts remain and to EXHAUSTED otherwise.
\<close>

fun spec_step :: "int \<Rightarrow> (nat \<Rightarrow> nat) \<Rightarrow> rho_machine \<Rightarrow> rho_machine option" where
  "spec_step n src (INIT a k) =
     (let x0 = spec_draw src k 2 (n - 1);
          c = spec_draw src (Suc k) 1 (n - 1)
      in Some (ITERATING (Suc a) (k + 2) x0 x0 c 1))"
| "spec_step n src (ITERATING a k x y c g) =
     (if g = 1 then
        (let x' = (x ^ 2 + c) mod n;
             y' = (((y ^ 2 + c) mod n) ^ 2 + c) mod n
         in Some (ITERATING a k x' y' c (gcd \<bar>x' - y'\<bar> n)))
      else if g = n then Some (RETRY a k)
      else if 1 < g \<and> g < n then Some (FACTOR_FOUND g k)
      else None)"
| "spec_step n src (RETRY a k) =
     (if a < RetryBudget then Some (INIT a k) else Some (EXHAUSTED k))"
| "spec_step n src (FACTOR_FOUND g k) = None"
| "spec_step n src (EXHAUSTED k) = None"

text \<open>FACTOR_FOUND returns \<open>g\<close>, EXHAUSTED returns \<open>n\<close>.\<close>

fun spec_output :: "int \<Rightarrow> rho_machine \<Rightarrow> (int \<times> nat) option" where
  "spec_output n (FACTOR_FOUND g k) = Some (g, k)"
| "spec_output n (EXHAUSTED k) = Some (n, k)"
| "spec_output n _ = None"

text \<open>The run of the machine from a state to its output.\<close>

partial_function (option) spec_run :: "int \<Rightarrow> (nat \<Rightarrow> nat) \<Rightarrow> rho_machine \<Rightarrow> (int \<times> nat) option" where
  "spec_run n src s =
     (case spec_output n s of
        Some r \<Rightarrow> Some r
      | None \<Rightarrow> Option.bind (spec_step n src s) (spec_run n src))"

declare spec_run.simps [code]

subsection \<open>Vocabulary of the properties\<close>

text \<open>
  The candidates that the loop of trial division tests: the odd numbers from 3 whose
  square does not exceed \<open>n\<close>; \<open>odd_candidate n i\<close> is such a candidate that divides
  \<open>n\<close>.
\<close>

definition odd_candidate :: "int \<Rightarrow> int \<Rightarrow> bool" where
  "odd_candidate n i \<longleftrightarrow> odd i \<and> 3 \<le> i \<and> i * i \<le> n \<and> n mod i = 0"

text \<open>A prime: greater than 1, with no divisor strictly between 1 and itself.\<close>

definition is_prime :: "int \<Rightarrow> bool" where
  "is_prime p \<longleftrightarrow> 1 < p \<and> (\<forall>d\<in>{2..<p}. p mod d \<noteq> 0)"

text \<open>
  The value of \<open>g\<close> after the \<open>j\<close>-th iteration of the \<^verbatim>\<open>while\<close> loop entered with
  tortoise \<open>x\<close> and hare \<open>y\<close>: the tortoise has made \<open>j\<close> steps, the hare \<open>2 * j\<close>.
\<close>

definition rho_gcd :: "int \<Rightarrow> int \<Rightarrow> int \<Rightarrow> int \<Rightarrow> nat \<Rightarrow> int" where
  "rho_gcd n c x y j = gcd \<bar>(rho_step n c ^^ j) x - (rho_step n c ^^ (2 * j)) y\<bar> n"

section \<open>Trial division: the loop\<close>

lemma trial_loop_stop: "\<not> i * i \<le> n \<Longrightarrow> trial_loop n i = n"
  by (subst trial_loop.simps) simp

lemma trial_loop_hit: "i * i \<le> n \<Longrightarrow> n mod i = 0 \<Longrightarrow> trial_loop n i = i"
  by (subst trial_loop.simps) simp

lemma trial_loop_next:
  "i * i \<le> n \<Longrightarrow> n mod i \<noteq> 0 \<Longrightarrow> trial_loop n i = trial_loop n (i + 2)"
  by (subst trial_loop.simps) simp

lemma trial_loop_mod: "n mod trial_loop n i = 0"
proof (induction n i rule: trial_loop.induct)
  case (1 n i)
  consider "\<not> i * i \<le> n" | "i * i \<le> n" "n mod i = 0" | "i * i \<le> n" "n mod i \<noteq> 0"
    by blast
  then show ?case
  proof cases
    case 1
    then show ?thesis by (simp add: trial_loop_stop)
  next
    case 2
    then show ?thesis by (simp add: trial_loop_hit)
  next
    case 3
    with "1.IH" show ?thesis by (simp add: trial_loop_next)
  qed
qed

lemma trial_loop_cases:
  "trial_loop n i = n \<or>
   (i \<le> trial_loop n i \<and> trial_loop n i * trial_loop n i \<le> n \<and> n mod trial_loop n i = 0)"
proof (induction n i rule: trial_loop.induct)
  case (1 n i)
  consider "\<not> i * i \<le> n" | "i * i \<le> n" "n mod i = 0" | "i * i \<le> n" "n mod i \<noteq> 0"
    by blast
  then show ?case
  proof cases
    case 1
    then show ?thesis by (simp add: trial_loop_stop)
  next
    case 2
    then show ?thesis by (simp add: trial_loop_hit)
  next
    case 3
    with "1.IH" have "trial_loop n (i + 2) = n \<or>
        (i + 2 \<le> trial_loop n (i + 2) \<and> trial_loop n (i + 2) * trial_loop n (i + 2) \<le> n
          \<and> n mod trial_loop n (i + 2) = 0)"
      by simp
    moreover from 3 have "trial_loop n i = trial_loop n (i + 2)"
      by (rule trial_loop_next)
    ultimately show ?thesis by auto
  qed
qed

lemma square_mono_int: "0 \<le> (i::int) \<Longrightarrow> i \<le> j \<Longrightarrow> i * i \<le> j * j"
  by (rule mult_mono) simp_all

lemma less_square_int: "2 \<le> (d::int) \<Longrightarrow> d < d * d"
proof -
  assume d: "2 \<le> d"
  then have "d * 2 \<le> d * d"
    by (intro mult_left_mono) simp_all
  with d show ?thesis by simp
qed

lemma trial_loop_first:
  assumes "odd i" "3 \<le> i"
  shows "(if \<exists>j. odd_candidate n j \<and> i \<le> j
          then odd_candidate n (trial_loop n i) \<and> i \<le> trial_loop n i
             \<and> (\<forall>j. odd_candidate n j \<and> i \<le> j \<longrightarrow> trial_loop n i \<le> j)
          else trial_loop n i = n)"
  using assms
proof (induction n i rule: trial_loop.induct)
  case (1 n i)
  consider "\<not> i * i \<le> n" | "i * i \<le> n" "n mod i = 0" | "i * i \<le> n" "n mod i \<noteq> 0"
    by blast
  then show ?case
  proof cases
    case 1
    have none: "\<not> (\<exists>j. odd_candidate n j \<and> i \<le> j)"
    proof
      assume "\<exists>j. odd_candidate n j \<and> i \<le> j"
      then obtain j where j: "j * j \<le> n" "i \<le> j"
        by (auto simp: odd_candidate_def)
      from "1.prems" j(2) have "i * i \<le> j * j"
        by (intro square_mono_int) simp_all
      with j(1) 1 show False by simp
    qed
    from 1 have "trial_loop n i = n" by (rule trial_loop_stop)
    with none show ?thesis by (simp only: if_False)
  next
    case 2
    with "1.prems" have "odd_candidate n i"
      by (simp add: odd_candidate_def)
    moreover from 2 have "trial_loop n i = i" by (rule trial_loop_hit)
    ultimately show ?thesis by auto
  next
    case 3
    then have eq: "trial_loop n i = trial_loop n (i + 2)" by (rule trial_loop_next)
    have shift: "(odd_candidate n j \<and> i \<le> j) = (odd_candidate n j \<and> i + 2 \<le> j)" for j
    proof (cases "j = i")
      case True
      with 3 show ?thesis by (simp add: odd_candidate_def)
    next
      case ne: False
      show ?thesis
      proof (cases "odd j")
        case True
        with ne "1.prems"(1) have "(i \<le> j) = (i + 2 \<le> j)" by presburger
        then show ?thesis by simp
      next
        case False
        then show ?thesis by (simp add: odd_candidate_def)
      qed
    qed
    from "1.prems" have "odd (i + 2)" "3 \<le> i + 2" by simp_all
    with "1.IH" 3
    have IH: "(if \<exists>j. odd_candidate n j \<and> i + 2 \<le> j
        then odd_candidate n (trial_loop n (i + 2)) \<and> i + 2 \<le> trial_loop n (i + 2)
           \<and> (\<forall>j. odd_candidate n j \<and> i + 2 \<le> j \<longrightarrow> trial_loop n (i + 2) \<le> j)
        else trial_loop n (i + 2) = n)"
      by simp
    show ?thesis
    proof (cases "\<exists>j. odd_candidate n j \<and> i + 2 \<le> j")
      case True
      with IH have a: "odd_candidate n (trial_loop n (i + 2))"
        and b: "i + 2 \<le> trial_loop n (i + 2)"
        and c: "\<And>j. odd_candidate n j \<Longrightarrow> i + 2 \<le> j \<Longrightarrow> trial_loop n (i + 2) \<le> j"
        by simp_all
      from True have ex: "\<exists>j. odd_candidate n j \<and> i \<le> j"
        by (simp only: shift)
      have "odd_candidate n (trial_loop n i)"
        using a by (simp only: eq)
      moreover have "i \<le> trial_loop n i"
        using b by (simp only: eq)
      moreover have "\<forall>j. odd_candidate n j \<and> i \<le> j \<longrightarrow> trial_loop n i \<le> j"
      proof (intro allI impI)
        fix j
        assume "odd_candidate n j \<and> i \<le> j"
        then have "odd_candidate n j \<and> i + 2 \<le> j"
          by (simp only: shift)
        then show "trial_loop n i \<le> j"
          using c by (simp only: eq)
      qed
      ultimately show ?thesis
        using ex by (simp only: if_True simp_thms)
    next
      case False
      with IH have "trial_loop n (i + 2) = n"
        by (simp only: if_False)
      then have "trial_loop n i = n"
        by (simp only: eq)
      moreover from False have "\<not> (\<exists>j. odd_candidate n j \<and> i \<le> j)"
        by (simp add: shift)
      ultimately show ?thesis
        by (simp only: if_False)
    qed
  qed
qed

lemma trial_division_result:
  "trial_division_python n = n \<or> trial_division_python n = 2 \<and> n mod 2 = 0
   \<or> (3 \<le> trial_division_python n \<and> trial_division_python n * trial_division_python n \<le> n
      \<and> n mod trial_division_python n = 0)"
  using trial_loop_cases [of n 3] by (auto simp: trial_division_python_def)

lemma is_prime_no_candidate:
  assumes "is_prime p"
  shows "\<not> odd_candidate p i"
proof
  assume c: "odd_candidate p i"
  then have i: "3 \<le> i" "i * i \<le> p" "p mod i = 0"
    by (simp_all add: odd_candidate_def)
  from i(1) have "i < i * i"
    by (intro less_square_int) simp
  then have "i < p"
    using i(2) by (rule less_le_trans)
  with i(1) have mem: "i \<in> {2..<p}" by simp
  from assms have "\<forall>d\<in>{2..<p}. p mod d \<noteq> 0"
    by (simp add: is_prime_def)
  then have "p mod i \<noteq> 0"
    using mem by (rule bspec)
  with i(3) show False by simp
qed

lemma is_prime_odd: "is_prime p \<Longrightarrow> p \<noteq> 2 \<Longrightarrow> p mod 2 \<noteq> 0"
proof
  assume p: "is_prime p" "p \<noteq> 2" "p mod 2 = 0"
  then have "1 < p" by (simp add: is_prime_def)
  with p(2) have mem: "2 \<in> {2..<p}" by simp
  from p(1) have "\<forall>d\<in>{2..<p}. p mod d \<noteq> 0"
    by (simp add: is_prime_def)
  then have "p mod 2 \<noteq> 0"
    using mem by (rule bspec)
  with p(3) show False by simp
qed

section \<open>Pollard's Rho: the tortoise and the hare meet\<close>

lemma rho_step_range: "0 < n \<Longrightarrow> 0 \<le> rho_step n c t \<and> rho_step n c t < n"
  by (simp add: rho_step_def)

lemma funpow_meet:
  fixes f :: "'a \<Rightarrow> 'a"
  assumes eq: "(f ^^ a) x = (f ^^ b) x" and less: "a < b"
  shows "\<exists>m\<ge>1. (f ^^ m) x = (f ^^ (2 * m)) x"
proof -
  define p where "p = b - a"
  from less have p: "0 < p" "b = a + p"
    by (simp_all add: p_def)
  have period: "(f ^^ (i + p)) x = (f ^^ i) x" if "a \<le> i" for i
  proof -
    from that obtain t where i: "i = t + a"
      by (metis le_add_diff_inverse2)
    have "(f ^^ (i + p)) x = (f ^^ (t + b)) x"
      by (simp add: p i add.assoc)
    also have "\<dots> = (f ^^ t) ((f ^^ b) x)"
      by (simp add: funpow_add)
    also have "\<dots> = (f ^^ t) ((f ^^ a) x)"
      by (simp add: eq)
    also have "\<dots> = (f ^^ i) x"
      by (simp add: funpow_add i)
    finally show ?thesis .
  qed
  have periods: "(f ^^ (i + q * p)) x = (f ^^ i) x" if "a \<le> i" for i q
  proof (induction q)
    case 0
    show ?case by simp
  next
    case (Suc q)
    have "(f ^^ (i + Suc q * p)) x = (f ^^ ((i + q * p) + p)) x"
      by (simp add: algebra_simps)
    also have "\<dots> = (f ^^ (i + q * p)) x"
      using that by (intro period) simp
    also have "\<dots> = (f ^^ i) x"
      by (rule Suc.IH)
    finally show ?case .
  qed
  define m where "m = Suc a * p"
  from p(1) have "a \<le> a * p"
    by (cases p) simp_all
  then have "a \<le> m"
    by (simp add: m_def trans_le_add2)
  moreover from p(1) have "1 \<le> m"
    by (simp add: m_def)
  ultimately have m: "a \<le> m" "1 \<le> m" .
  have "2 * m = m + Suc a * p"
    by (simp add: m_def)
  then have "(f ^^ (2 * m)) x = (f ^^ (m + Suc a * p)) x"
    by (simp only:)
  also have "\<dots> = (f ^^ m) x"
    using m(1) by (rule periods)
  finally have "(f ^^ m) x = (f ^^ (2 * m)) x"
    by simp
  with m(2) show ?thesis by blast
qed

lemma floyd_meet:
  assumes n: "0 < n"
  shows "\<exists>m\<ge>1. (rho_step n c ^^ m) x = (rho_step n c ^^ (2 * m)) x"
proof -
  define F where "F i = (rho_step n c ^^ Suc i) x" for i
  have "F ` {0..nat n} \<subseteq> {0..<n}"
    using rho_step_range [OF n] by (auto simp: F_def)
  then have "card (F ` {0..nat n}) \<le> card {0..<n}"
    by (intro card_mono) simp_all
  then have "card (F ` {0..nat n}) < card {0..nat n}"
    by simp
  then have "\<not> inj_on F {0..nat n}"
    by (rule pigeonhole)
  then obtain i j where ij: "i \<noteq> j" "F i = F j"
    by (auto simp: inj_on_def)
  show ?thesis
  proof (cases "i < j")
    case True
    with ij(2) show ?thesis
      by (intro funpow_meet [where a = "Suc i" and b = "Suc j"]) (simp_all add: F_def)
  next
    case False
    with ij have "j < i" "F j = F i" by simp_all
    then show ?thesis
      by (intro funpow_meet [where a = "Suc j" and b = "Suc i"]) (simp_all add: F_def)
  qed
qed

lemma rho_gcd_Suc:
  "rho_gcd n c x y (Suc j) = rho_gcd n c (rho_step n c x) (rho_step n c (rho_step n c y)) j"
  by (simp add: rho_gcd_def funpow_swap1)

lemma rho_gcd_pos: "0 < n \<Longrightarrow> 0 < rho_gcd n c x y j"
  by (simp add: rho_gcd_def zero_less_iff_neq_zero flip: less_le)

lemma rho_while_first:
  assumes n: "1 < n" and m: "1 \<le> m"
    and meet: "(rho_step n c ^^ m) x = (rho_step n c ^^ (2 * m)) y"
  shows "\<exists>k. 1 \<le> k \<and> k \<le> m \<and> (\<forall>j. 1 \<le> j \<and> j < k \<longrightarrow> rho_gcd n c x y j = 1)
           \<and> rho_gcd n c x y k \<noteq> 1
           \<and> rho_while n c x y 1 =
               Some (if rho_gcd n c x y k = n then Break else Return (rho_gcd n c x y k))"
  using m meet
proof (induction m arbitrary: x y)
  case 0
  then show ?case by simp
next
  case (Suc m)
  let ?x = "rho_step n c x" and ?y = "rho_step n c (rho_step n c y)"
  have g1: "rho_gcd n c x y (Suc 0) = gcd \<bar>?x - ?y\<bar> n"
    by (simp add: rho_gcd_def numeral_2_eq_2)
  from n have pos: "0 < rho_gcd n c x y (Suc 0)"
    by (intro rho_gcd_pos) simp
  have step: "rho_while n c x y 1 =
      (if rho_gcd n c x y (Suc 0) = n then Some Break
       else if 1 < rho_gcd n c x y (Suc 0) then Some (Return (rho_gcd n c x y (Suc 0)))
       else rho_while n c ?x ?y (rho_gcd n c x y (Suc 0)))"
    unfolding g1 by (subst rho_while.simps) (simp add: Let_def)
  show ?case
  proof (cases "rho_gcd n c x y (Suc 0) = 1")
    case False
    with pos have "rho_while n c x y 1 =
        Some (if rho_gcd n c x y (Suc 0) = n then Break else Return (rho_gcd n c x y (Suc 0)))"
      by (simp add: step)
    with False show ?thesis
      by (intro exI [of _ 1]) simp
  next
    case True
    with n have unfold: "rho_while n c x y 1 = rho_while n c ?x ?y 1"
      by (simp add: step)
    have "m \<noteq> 0"
    proof
      assume "m = 0"
      with Suc.prems(2) have "?x = ?y"
        by (simp add: numeral_2_eq_2)
      with True n show False
        by (simp add: g1)
    qed
    then have "1 \<le> m" by simp
    moreover from Suc.prems(2)
    have "(rho_step n c ^^ m) ?x = (rho_step n c ^^ (2 * m)) ?y"
      by (simp add: funpow_swap1)
    ultimately obtain k where k: "1 \<le> k" "k \<le> m"
      "\<forall>j. 1 \<le> j \<and> j < k \<longrightarrow> rho_gcd n c ?x ?y j = 1"
      "rho_gcd n c ?x ?y k \<noteq> 1"
      "rho_while n c ?x ?y 1 =
         Some (if rho_gcd n c ?x ?y k = n then Break else Return (rho_gcd n c ?x ?y k))"
      using Suc.IH by blast
    have "\<forall>j. 1 \<le> j \<and> j < Suc k \<longrightarrow> rho_gcd n c x y j = 1"
    proof (intro allI impI)
      fix j
      assume j: "1 \<le> j \<and> j < Suc k"
      show "rho_gcd n c x y j = 1"
      proof (cases "j = 1")
        case True
        with \<open>rho_gcd n c x y (Suc 0) = 1\<close> show ?thesis by simp
      next
        case False
        with j obtain j' where "j = Suc j'" "1 \<le> j'" "j' < k"
          by (cases j) auto
        with k(3) show ?thesis
          by (simp add: rho_gcd_Suc)
      qed
    qed
    with k show ?thesis
      by (intro exI [of _ "Suc k"]) (simp add: rho_gcd_Suc unfold)
  qed
qed

section \<open>Pollard's Rho: attempts\<close>

lemma randint_range:
  assumes "a \<le> b"
  shows "\<exists>v. randint src k a b = Inr (v, Suc k) \<and> a \<le> v \<and> v \<le> b"
proof -
  from assms have pos: "0 < nat (b - a + 1)" by simp
  have "src k mod nat (b - a + 1) < nat (b - a + 1)"
    using pos by (rule mod_less_divisor)
  then have "int (src k mod nat (b - a + 1)) < b - a + 1"
    by linarith
  with assms show ?thesis
    by (simp add: randint_def)
qed

lemma randint_onto:
  assumes "a \<le> v" "v \<le> b" "src k = nat (v - a)"
  shows "randint src k a b = Inr (v, Suc k)"
  using assms by (simp add: randint_def)

lemma is_prime_dvd:
  assumes p: "is_prime p" and g: "g dvd p" "1 < g"
  shows "g = p"
proof (rule ccontr)
  assume ne: "g \<noteq> p"
  from p have p1: "1 < p" by (simp add: is_prime_def)
  with g(1) have "g \<le> p"
    by (intro zdvd_imp_le) simp_all
  with ne g(2) have "g \<in> {2..<p}" by simp
  with p have "p mod g \<noteq> 0"
    by (simp add: is_prime_def)
  with g(1) show False by (simp add: mod_eq_0_iff_dvd)
qed

lemma rho_attempt_first:
  assumes n: "3 \<le> n"
  shows "\<exists>x c j. randint src k 2 (n - 1) = Inr (x, Suc k) \<and> 2 \<le> x \<and> x \<le> n - 1
           \<and> randint src (Suc k) 1 (n - 1) = Inr (c, k + 2) \<and> 1 \<le> c \<and> c \<le> n - 1
           \<and> 1 \<le> j \<and> (\<forall>i. 1 \<le> i \<and> i < j \<longrightarrow> rho_gcd n c x x i = 1)
           \<and> rho_gcd n c x x j \<noteq> 1
           \<and> rho_attempt n src k =
               Some (Inr (if rho_gcd n c x x j = n then Break else Return (rho_gcd n c x x j),
                          k + 2))"
proof -
  from n obtain x where x: "randint src k 2 (n - 1) = Inr (x, Suc k)" "2 \<le> x" "x \<le> n - 1"
    using randint_range [of 2 "n - 1" src k] by auto
  from n obtain c where c: "randint src (Suc k) 1 (n - 1) = Inr (c, Suc (Suc k))"
      "1 \<le> c" "c \<le> n - 1"
    using randint_range [of 1 "n - 1" src "Suc k"] by auto
  from n obtain m where m: "1 \<le> m" "(rho_step n c ^^ m) x = (rho_step n c ^^ (2 * m)) x"
    using floyd_meet [of n c x] by auto
  from n have "1 < n" by simp
  from rho_while_first [OF this m]
  obtain j where j: "1 \<le> j" "\<forall>i. 1 \<le> i \<and> i < j \<longrightarrow> rho_gcd n c x x i = 1"
     "rho_gcd n c x x j \<noteq> 1"
     "rho_while n c x x 1 =
        Some (if rho_gcd n c x x j = n then Break else Return (rho_gcd n c x x j))"
    by blast
  have "rho_attempt n src k =
      Some (Inr (if rho_gcd n c x x j = n then Break else Return (rho_gcd n c x x j), k + 2))"
    by (simp add: rho_attempt_def x(1) c(1) j(4))
  with x c j(1-3) show ?thesis
    by (intro exI [of _ x] exI [of _ c] exI [of _ j]) simp
qed

lemma rho_gcd_divisor:
  assumes "1 < n" "rho_gcd n c x y j \<noteq> 1" "rho_gcd n c x y j \<noteq> n"
  shows "1 < rho_gcd n c x y j \<and> rho_gcd n c x y j < n \<and> n mod rho_gcd n c x y j = 0"
proof -
  have dvd: "rho_gcd n c x y j dvd n"
    by (simp add: rho_gcd_def)
  from assms(1) have "0 < rho_gcd n c x y j"
    by (intro rho_gcd_pos) simp
  with assms(2) have "1 < rho_gcd n c x y j" by simp
  moreover from dvd assms(1) have "rho_gcd n c x y j \<le> n"
    by (intro zdvd_imp_le) simp_all
  with assms(3) have "rho_gcd n c x y j < n" by simp
  moreover from dvd have "n mod rho_gcd n c x y j = 0"
    by (simp add: mod_eq_0_iff_dvd)
  ultimately show ?thesis by simp
qed

text \<open>\<open>is_prime\<close> is primality as usually stated, over all divisors.\<close>

lemma is_prime_iff_divisors:
  "is_prime p \<longleftrightarrow> 1 < p \<and> (\<forall>d. d dvd p \<longrightarrow> \<bar>d\<bar> = 1 \<or> \<bar>d\<bar> = p)"
proof
  assume p: "is_prime p"
  then have p1: "1 < p" by (simp add: is_prime_def)
  have "\<bar>d\<bar> = 1 \<or> \<bar>d\<bar> = p" if d: "d dvd p" for d
  proof (cases "\<bar>d\<bar> = 1")
    case True
    then show ?thesis ..
  next
    case False
    from d p1 have "d \<noteq> 0" by auto
    with False have "1 < \<bar>d\<bar>" by simp
    moreover from d have "\<bar>d\<bar> dvd p" by simp
    ultimately have "\<bar>d\<bar> = p"
      using p by (intro is_prime_dvd)
    then show ?thesis ..
  qed
  with p1 show "1 < p \<and> (\<forall>d. d dvd p \<longrightarrow> \<bar>d\<bar> = 1 \<or> \<bar>d\<bar> = p)"
    by simp
next
  assume r: "1 < p \<and> (\<forall>d. d dvd p \<longrightarrow> \<bar>d\<bar> = 1 \<or> \<bar>d\<bar> = p)"
  have "p mod d \<noteq> 0" if d: "d \<in> {2..<p}" for d
  proof
    assume "p mod d = 0"
    then have "d dvd p" by (simp add: mod_eq_0_iff_dvd)
    with r have "\<bar>d\<bar> = 1 \<or> \<bar>d\<bar> = p" by simp
    with d show False by simp
  qed
  with r show "is_prime p"
    by (simp add: is_prime_def)
qed

text \<open>One attempt either breaks out of its loop or returns a nontrivial divisor.\<close>

lemma rho_attempt_result:
  assumes n: "3 \<le> n"
  shows "rho_attempt n src k = Some (Inr (Break, k + 2))
       \<or> (\<exists>g. rho_attempt n src k = Some (Inr (Return g, k + 2)) \<and> 1 < g \<and> g < n \<and> n mod g = 0)"
proof -
  from rho_attempt_first [OF n, of src k]
  obtain x c j where j: "rho_gcd n c x x j \<noteq> 1"
    and res: "rho_attempt n src k =
       Some (Inr (if rho_gcd n c x x j = n then Break else Return (rho_gcd n c x x j), k + 2))"
    by blast
  show ?thesis
  proof (cases "rho_gcd n c x x j = n")
    case True
    with res show ?thesis by simp
  next
    case False
    from n have "1 < n" by simp
    from rho_gcd_divisor [OF this j False] res False show ?thesis
      by simp
  qed
qed

lemma rho_attempt_prime:
  assumes p: "is_prime n" and n: "3 \<le> n"
  shows "rho_attempt n src k = Some (Inr (Break, k + 2))"
proof (rule disjE [OF rho_attempt_result [OF n, of src k]])
  assume "rho_attempt n src k = Some (Inr (Break, k + 2))"
  then show ?thesis .
next
  assume "\<exists>g. rho_attempt n src k = Some (Inr (Return g, k + 2)) \<and> 1 < g \<and> g < n \<and> n mod g = 0"
  then obtain g where g: "1 < g" "g < n" "n mod g = 0"
    by (elim exE conjE)
  from g(3) have "g dvd n"
    by (simp add: mod_eq_0_iff_dvd)
  with p have "g = n"
    using g(1) by (rule is_prime_dvd)
  with g(2) have False
    by (simp only: less_irrefl)
  then show ?thesis ..
qed

text \<open>The for loop: after at most r attempts, a nontrivial divisor or n.\<close>

lemma rho_attempts_result:
  assumes n: "3 \<le> n"
  shows "\<exists>d a. rho_attempts r n src k = Some (Inr (d, k + 2 * a)) \<and> a \<le> r
          \<and> (d = n \<and> a = r \<or> 1 \<le> a \<and> 1 < d \<and> d < n \<and> n mod d = 0)"
proof (induction r arbitrary: k)
  case 0
  have "rho_attempts 0 n src k = Some (Inr (n, k + 2 * 0))"
    by simp
  then show ?case
    by (intro exI [of _ n] exI [of _ "0::nat"] conjI) simp_all
next
  case (Suc r)
  from rho_attempt_result [OF n, of src k]
  show ?case
  proof
    assume br: "rho_attempt n src k = Some (Inr (Break, k + 2))"
    from Suc.IH [of "k + 2"] obtain d a where
      res: "rho_attempts r n src (k + 2) = Some (Inr (d, k + 2 + 2 * a))" and a: "a \<le> r"
      and d: "d = n \<and> a = r \<or> 1 \<le> a \<and> 1 < d \<and> d < n \<and> n mod d = 0"
      by (elim exE conjE)
    have "rho_attempts (Suc r) n src k = rho_attempts r n src (k + 2)"
      by (simp add: br)
    with res have "rho_attempts (Suc r) n src k = Some (Inr (d, k + 2 * Suc a))"
      by simp
    moreover from a have "Suc a \<le> Suc r"
      by simp
    moreover from d
    have "d = n \<and> Suc a = Suc r \<or> 1 \<le> Suc a \<and> 1 < d \<and> d < n \<and> n mod d = 0"
      by (elim disjE conjE) (simp_all del: mod_self)
    ultimately show ?thesis
      by (intro exI [of _ d] exI [of _ "Suc a"] conjI)
  next
    assume "\<exists>g. rho_attempt n src k = Some (Inr (Return g, k + 2)) \<and> 1 < g \<and> g < n \<and> n mod g = 0"
    then obtain g where ret: "rho_attempt n src k = Some (Inr (Return g, k + 2))"
      and g: "1 < g" "g < n" "n mod g = 0"
      by (elim exE conjE)
    from ret have "rho_attempts (Suc r) n src k = Some (Inr (g, k + 2 * 1))"
      by simp
    moreover have "(1::nat) \<le> Suc r"
      by simp
    moreover from g
    have "g = n \<and> 1 = Suc r \<or> 1 \<le> (1::nat) \<and> 1 < g \<and> g < n \<and> n mod g = 0"
      by simp
    ultimately show ?thesis
      by (intro exI [of _ g] exI [of _ "1::nat"] conjI)
  qed
qed

lemma rho_attempts_prime:
  assumes p: "is_prime n" and n: "3 \<le> n"
  shows "rho_attempts r n src k = Some (Inr (n, k + 2 * r))"
proof (induction r arbitrary: k)
  case 0
  show ?case by simp
next
  case (Suc r)
  from rho_attempt_prime [OF p n, of src k] Suc.IH [of "k + 2"]
  show ?case by simp
qed

text \<open>Outside the fast paths n is at least 5.\<close>

lemma slow_path_ge: "2 \<le> n \<Longrightarrow> n mod 2 \<noteq> 0 \<Longrightarrow> n mod 3 \<noteq> 0 \<Longrightarrow> 5 \<le> (n::int)"
  by presburger

lemma pollards_rho_result:
  assumes n: "2 \<le> n"
  shows "\<exists>d a. pollards_rho n src k = Some (Inr (d, k + 2 * a)) \<and> a \<le> 5
          \<and> (d = n \<or> 1 < d \<and> d < n \<and> n mod d = 0)"
proof -
  consider "n mod 2 = 0" | "n mod 2 \<noteq> 0" "n mod 3 = 0" | "n mod 2 \<noteq> 0" "n mod 3 \<noteq> 0"
    by blast
  then show ?thesis
  proof cases
    case 1
    then have "pollards_rho n src k = Some (Inr (2, k + 2 * 0))"
      by (simp add: pollards_rho_def)
    moreover have "(0::nat) \<le> 5"
      by simp
    moreover from 1 n have "2 = n \<or> 1 < (2::int) \<and> 2 < n \<and> n mod 2 = 0"
      by presburger
    ultimately show ?thesis
      by (intro exI [of _ "2::int"] exI [of _ "0::nat"] conjI)
  next
    case 2
    then have "pollards_rho n src k = Some (Inr (3, k + 2 * 0))"
      by (simp add: pollards_rho_def)
    moreover have "(0::nat) \<le> 5"
      by simp
    moreover from 2 n have "3 = n \<or> 1 < (3::int) \<and> 3 < n \<and> n mod 3 = 0"
      by presburger
    ultimately show ?thesis
      by (intro exI [of _ "3::int"] exI [of _ "0::nat"] conjI)
  next
    case 3
    with n have "3 \<le> n"
      using slow_path_ge [of n] by simp
    from rho_attempts_result [OF this, of 5 src k] obtain d a where
      res: "rho_attempts 5 n src k = Some (Inr (d, k + 2 * a))" and a: "a \<le> 5"
      and d: "d = n \<and> a = 5 \<or> 1 \<le> a \<and> 1 < d \<and> d < n \<and> n mod d = 0"
      by (elim exE conjE)
    from 3 res have "pollards_rho n src k = Some (Inr (d, k + 2 * a))"
      by (simp add: pollards_rho_def)
    moreover from d have "d = n \<or> 1 < d \<and> d < n \<and> n mod d = 0"
      by (elim disjE conjE) (simp_all del: mod_self)
    ultimately show ?thesis
      using a by (intro exI [of _ d] exI [of _ a] conjI)
  qed
qed

lemma rho_attempts_all_fail:
  assumes n: "3 \<le> n"
  shows "(\<forall>j<r. \<forall>g k'. rho_attempt n src (k + 2 * j) \<noteq> Some (Inr (Return g, k'))) \<Longrightarrow>
           rho_attempts r n src k = Some (Inr (n, k + 2 * r))"
proof (induction r arbitrary: k)
  case 0
  show ?case by simp
next
  case (Suc r)
  from Suc.prems have "\<forall>g k'. rho_attempt n src (k + 2 * 0) \<noteq> Some (Inr (Return g, k'))"
    by blast
  then have "\<forall>g k'. rho_attempt n src k \<noteq> Some (Inr (Return g, k'))"
    by simp
  with rho_attempt_result [OF n, of src k]
  have br: "rho_attempt n src k = Some (Inr (Break, k + 2))"
    by blast
  have "\<forall>j<r. \<forall>g k'. rho_attempt n src (k + 2 + 2 * j) \<noteq> Some (Inr (Return g, k'))"
  proof (intro allI impI)
    fix j g k'
    assume "j < r"
    then have "Suc j < Suc r" by simp
    with Suc.prems have "rho_attempt n src (k + 2 * Suc j) \<noteq> Some (Inr (Return g, k'))"
      by blast
    then show "rho_attempt n src (k + 2 + 2 * j) \<noteq> Some (Inr (Return g, k'))"
      by (simp add: add.assoc)
  qed
  then have "rho_attempts r n src (k + 2) = Some (Inr (n, k + 2 + 2 * r))"
    by (rule Suc.IH)
  with br show ?case by simp
qed

section \<open>The code against the state machine\<close>

lemma rho_step_spec: "rho_step n c t = (t ^ 2 + c) mod n"
  by (simp add: rho_step_def mod_add_left_eq)

lemma spec_run_final:
  "spec_run n src (FACTOR_FOUND g k) = Some (g, k)"
  "spec_run n src (EXHAUSTED k) = Some (n, k)"
  by (subst spec_run.simps, simp)+

lemma spec_run_retry:
  "spec_run n src (RETRY a k) =
     (if a < RetryBudget then spec_run n src (INIT a k) else Some (n, k))"
  by (subst spec_run.simps) (simp add: spec_run_final)

lemma spec_run_init:
  "spec_run n src (INIT a k) =
     spec_run n src (ITERATING (Suc a) (k + 2) (spec_draw src k 2 (n - 1))
        (spec_draw src k 2 (n - 1)) (spec_draw src (Suc k) 1 (n - 1)) 1)"
  by (subst spec_run.simps) (simp add: Let_def)

lemma spec_run_iterating_loop:
  "spec_run n src (ITERATING a k x y c 1) =
     spec_run n src (ITERATING a k (rho_step n c x) (rho_step n c (rho_step n c y)) c
        (rho_gcd n c x y (Suc 0)))"
  by (subst spec_run.simps) (simp add: Let_def rho_step_spec rho_gcd_def numeral_2_eq_2)

lemma spec_run_iterating_exit:
  "g \<noteq> 1 \<Longrightarrow> spec_run n src (ITERATING a k x y c g) =
     (if g = n then spec_run n src (RETRY a k)
      else if 1 < g \<and> g < n then Some (g, k) else None)"
  by (subst spec_run.simps) (simp add: spec_run_final)


lemma spec_draw_randint:
  "lo \<le> hi \<Longrightarrow> randint src k lo hi = Inr (spec_draw src k lo hi, Suc k)"
  by (simp add: randint_def spec_draw_def)

lemma spec_iterating_first:
  assumes n: "1 < n" and first: "\<forall>j. 1 \<le> j \<and> j < i \<longrightarrow> rho_gcd n c x y j = 1"
    and exit: "rho_gcd n c x y i \<noteq> 1" and i: "1 \<le> i"
  shows "spec_run n src (ITERATING a k x y c 1) =
           (if rho_gcd n c x y i = n then spec_run n src (RETRY a k)
            else Some (rho_gcd n c x y i, k))"
  using first exit i
proof (induction i arbitrary: x y)
  case 0
  then show ?case by simp
next
  case (Suc i)
  let ?x = "rho_step n c x" and ?y = "rho_step n c (rho_step n c y)"
  show ?case
  proof (cases "i = 0")
    case True
    with Suc.prems(2) have g: "rho_gcd n c x y (Suc 0) \<noteq> 1"
      by simp
    have "spec_run n src (ITERATING a k x y c 1) =
        spec_run n src (ITERATING a k ?x ?y c (rho_gcd n c x y (Suc 0)))"
      by (rule spec_run_iterating_loop)
    also from g have "\<dots> =
        (if rho_gcd n c x y (Suc 0) = n then spec_run n src (RETRY a k)
         else if 1 < rho_gcd n c x y (Suc 0) \<and> rho_gcd n c x y (Suc 0) < n
           then Some (rho_gcd n c x y (Suc 0), k) else None)"
      by (rule spec_run_iterating_exit)
    also have "\<dots> =
        (if rho_gcd n c x y (Suc 0) = n then spec_run n src (RETRY a k)
         else Some (rho_gcd n c x y (Suc 0), k))"
      using rho_gcd_divisor [OF n g] by simp
    finally show ?thesis
      using True by simp
  next
    case False
    then have "1 \<le> Suc 0 \<and> Suc 0 < Suc i" by simp
    with Suc.prems(1) have one: "rho_gcd n c x y (Suc 0) = 1"
      by blast
    have "spec_run n src (ITERATING a k x y c 1) =
        spec_run n src (ITERATING a k ?x ?y c (rho_gcd n c x y (Suc 0)))"
      by (rule spec_run_iterating_loop)
    also have "\<dots> = spec_run n src (ITERATING a k ?x ?y c 1)"
      by (simp only: one)
    also have "\<dots> =
        (if rho_gcd n c ?x ?y i = n then spec_run n src (RETRY a k)
         else Some (rho_gcd n c ?x ?y i, k))"
    proof (rule Suc.IH)
      show "\<forall>j. 1 \<le> j \<and> j < i \<longrightarrow> rho_gcd n c ?x ?y j = 1"
      proof (intro allI impI)
        fix j
        assume "1 \<le> j \<and> j < i"
        then have "1 \<le> Suc j \<and> Suc j < Suc i" by simp
        with Suc.prems(1) have "rho_gcd n c x y (Suc j) = 1"
          by blast
        then show "rho_gcd n c ?x ?y j = 1"
          by (simp only: rho_gcd_Suc)
      qed
      from Suc.prems(2) show "rho_gcd n c ?x ?y i \<noteq> 1"
        by (simp add: rho_gcd_Suc)
      from False show "1 \<le> i" by simp
    qed
    finally show ?thesis
      by (simp only: rho_gcd_Suc)
  qed
qed

lemma spec_attempts:
  assumes n: "3 \<le> n"
  shows "a + r = RetryBudget \<Longrightarrow>
           rho_attempts r n src k = map_option Inr (spec_run n src (RETRY a k))"
proof (induction r arbitrary: a k)
  case 0
  then show ?case
    by (simp add: spec_run_retry)
next
  case (Suc r)
  define x where "x = spec_draw src k 2 (n - 1)"
  define c where "c = spec_draw src (Suc k) 1 (n - 1)"
  from n have dx: "randint src k 2 (n - 1) = Inr (x, Suc k)"
    unfolding x_def by (intro spec_draw_randint) simp
  from n have dc: "randint src (Suc k) 1 (n - 1) = Inr (c, Suc (Suc k))"
    unfolding c_def by (intro spec_draw_randint) simp
  from n have n1: "1 < n" by simp
  from n obtain m where m: "1 \<le> m" "(rho_step n c ^^ m) x = (rho_step n c ^^ (2 * m)) x"
    using floyd_meet [of n c x] by auto
  from rho_while_first [OF n1 m]
  obtain i where i: "1 \<le> i" "\<forall>j. 1 \<le> j \<and> j < i \<longrightarrow> rho_gcd n c x x j = 1"
     "rho_gcd n c x x i \<noteq> 1"
     and loop: "rho_while n c x x 1 =
        Some (if rho_gcd n c x x i = n then Break else Return (rho_gcd n c x x i))"
    by (elim exE conjE)
  have att: "rho_attempt n src k =
      Some (Inr (if rho_gcd n c x x i = n then Break else Return (rho_gcd n c x x i), k + 2))"
    by (simp add: rho_attempt_def dx dc loop)
  from Suc.prems have a: "a < RetryBudget" "Suc a + r = RetryBudget"
    by simp_all
  from a(1) have "spec_run n src (RETRY a k) = spec_run n src (INIT a k)"
    by (simp add: spec_run_retry)
  also have "\<dots> = spec_run n src (ITERATING (Suc a) (k + 2) x x c 1)"
    by (simp only: spec_run_init x_def c_def)
  also have "\<dots> =
      (if rho_gcd n c x x i = n then spec_run n src (RETRY (Suc a) (k + 2))
       else Some (rho_gcd n c x x i, k + 2))"
    using n1 i(2,3,1) by (rule spec_iterating_first)
  finally have spec: "spec_run n src (RETRY a k) =
      (if rho_gcd n c x x i = n then spec_run n src (RETRY (Suc a) (k + 2))
       else Some (rho_gcd n c x x i, k + 2))" .
  show ?case
  proof (cases "rho_gcd n c x x i = n")
    case True
    with att have "rho_attempts (Suc r) n src k = rho_attempts r n src (k + 2)"
      by simp
    also from a(2) have "\<dots> = map_option Inr (spec_run n src (RETRY (Suc a) (k + 2)))"
      by (rule Suc.IH)
    finally show ?thesis
      using True by (simp add: spec)
  next
    case False
    with att have "rho_attempts (Suc r) n src k = Some (Inr (rho_gcd n c x x i, k + 2))"
      by simp
    with False show ?thesis
      by (simp add: spec)
  qed
qed

section \<open>The properties of trial division\<close>

text \<open>
  C3. For every odd \<open>n \<ge> 3\<close>, \<open>trial_division_python n\<close> is the first, that is the
  smallest, odd candidate \<open>i = 3, 5, 7, \<dots>\<close> with \<open>i * i \<le> n\<close> that divides \<open>n\<close>, and it
  is \<open>n\<close> itself when there is no such candidate; \<open>trial_division_python 15 = 3\<close>; and
  for every prime \<open>p\<close>, \<open>trial_division_python p = p\<close>.
\<close>

theorem trial_division_first_candidate:
  "(odd n \<and> 3 \<le> n \<longrightarrow>
      (if \<exists>i. odd_candidate n i
       then odd_candidate n (trial_division_python n)
          \<and> (\<forall>j. odd_candidate n j \<longrightarrow> trial_division_python n \<le> j)
       else trial_division_python n = n))
   \<and> trial_division_python 15 = 3
   \<and> (is_prime p \<longrightarrow> trial_division_python p = p)"
proof (intro conjI impI)
  assume n: "odd n \<and> 3 \<le> n"
  then have td: "trial_division_python n = trial_loop n 3"
    by (simp add: trial_division_python_def odd_iff_mod_2_eq_one)
  have all: "(odd_candidate n j \<and> 3 \<le> j) = odd_candidate n j" for j
    by (auto simp: odd_candidate_def)
  have "odd (3::int)" "(3::int) \<le> 3" by simp_all
  from trial_loop_first [OF this, of n]
  show "if \<exists>i. odd_candidate n i
       then odd_candidate n (trial_division_python n)
          \<and> (\<forall>j. odd_candidate n j \<longrightarrow> trial_division_python n \<le> j)
       else trial_division_python n = n"
    unfolding td all by (simp split: if_splits)
next
  show "trial_division_python 15 = 3"
    by code_simp
next
  assume p: "is_prime p"
  show "trial_division_python p = p"
  proof (cases "p = 2")
    case True
    then show ?thesis by (simp add: trial_division_python_def)
  next
    case False
    with p have odd: "p mod 2 \<noteq> 0" by (rule is_prime_odd)
    then have "odd p" by (simp add: odd_iff_mod_2_eq_one)
    have "odd (3::int)" "(3::int) \<le> 3" by simp_all
    from trial_loop_first [OF this, of p] is_prime_no_candidate [OF p]
    have "trial_loop p 3 = p" by simp
    with odd show ?thesis by (simp add: trial_division_python_def)
  qed
qed

theorem trial_division_first_candidate_witness:
  "odd (91::int) \<and> (3::int) \<le> 91 \<and> odd_candidate 91 7 \<and> trial_division_python 91 = 7
   \<and> odd_candidate 91 (trial_division_python 91)
   \<and> is_prime 997 \<and> trial_division_python 997 = 997"
proof -
  have c: "odd_candidate 91 7" by code_simp
  then have ex: "\<exists>i. odd_candidate 91 i" ..
  have p: "is_prime 997" by code_simp
  have v: "trial_division_python 91 = 7" by code_simp
  from trial_division_first_candidate [of 91 997] ex p
  have "odd_candidate 91 (trial_division_python 91)" "trial_division_python 997 = 997"
    by simp_all
  with c p v show ?thesis by simp
qed

text \<open>
  C6. Trial division terminates for every \<open>n \<ge> 2\<close>: \<open>trial_loop\<close> is a total function,
  by its termination proof, whose measure \<open>n + 1 - i\<close> bounds the number of iterations.
  The value \<open>d\<close> it returns divides \<open>n\<close>, and \<open>2 \<le> d \<le> n\<close>: at worst \<open>d = n\<close>.
\<close>

theorem trial_division_divides:
  "2 \<le> n \<Longrightarrow> n mod trial_division_python n = 0 \<and> 2 \<le> trial_division_python n
     \<and> trial_division_python n \<le> n"
proof -
  assume n: "2 \<le> n"
  have m: "n mod trial_division_python n = 0"
    by (simp add: trial_division_python_def trial_loop_mod)
  from trial_division_result [of n]
  have "2 \<le> trial_division_python n \<and> trial_division_python n \<le> n"
  proof (elim disjE conjE)
    assume "trial_division_python n = n"
    with n show ?thesis by simp
  next
    assume "trial_division_python n = 2" "n mod 2 = 0"
    with n show ?thesis by simp
  next
    assume d: "3 \<le> trial_division_python n"
      "trial_division_python n * trial_division_python n \<le> n"
    then have "trial_division_python n < trial_division_python n * trial_division_python n"
      by (intro less_square_int) simp
    then have "trial_division_python n < n"
      using d(2) by (rule less_le_trans)
    with d(1) show ?thesis by simp
  qed
  with m show ?thesis by simp
qed

theorem trial_division_divides_witness:
  "(2::int) \<le> 91 \<and> 91 mod trial_division_python 91 = 0 \<and> trial_division_python 91 = 7"
proof -
  have "trial_division_python 91 = 7" by code_simp
  with trial_division_divides [of 91] show ?thesis by simp
qed

section \<open>The properties of Pollard's Rho\<close>

text \<open>
  In every theorem below \<open>src\<close> and \<open>k\<close> are arbitrary: the property holds whatever the
  generator draws.
\<close>

text \<open>
  C1. For every \<open>n \<ge> 2\<close>, a value \<open>d \<noteq> n\<close> returned by \<open>trial_division_python n\<close> or by
  \<open>pollards_rho n\<close> is a nontrivial divisor of \<open>n\<close>: \<open>1 < d < n\<close> and \<open>n mod d = 0\<close>.
\<close>

theorem divisor_validity:
  assumes n: "2 \<le> n"
  shows "(trial_division_python n \<noteq> n \<longrightarrow>
        1 < trial_division_python n \<and> trial_division_python n < n
          \<and> n mod trial_division_python n = 0)
   \<and> (\<forall>d k'. pollards_rho n src k = Some (Inr (d, k')) \<and> d \<noteq> n \<longrightarrow>
          1 < d \<and> d < n \<and> n mod d = 0)"
proof (rule conjI)
  show "trial_division_python n \<noteq> n \<longrightarrow>
        1 < trial_division_python n \<and> trial_division_python n < n
          \<and> n mod trial_division_python n = 0"
  proof (rule impI)
    assume ne: "trial_division_python n \<noteq> n"
    from trial_division_result [of n] ne
    consider "trial_division_python n = 2" "n mod 2 = 0"
      | "3 \<le> trial_division_python n" "trial_division_python n * trial_division_python n \<le> n"
        "n mod trial_division_python n = 0"
      by blast
    then show "1 < trial_division_python n \<and> trial_division_python n < n
            \<and> n mod trial_division_python n = 0"
    proof cases
      case 1
      with n ne show ?thesis by simp
    next
      case 2
      from 2(1)
      have "trial_division_python n < trial_division_python n * trial_division_python n"
        by (intro less_square_int) simp
      then have "trial_division_python n < n"
        using 2(2) by (rule less_le_trans)
      with 2(1,3) show ?thesis by simp
    qed
  qed
next
  show "\<forall>d k'. pollards_rho n src k = Some (Inr (d, k')) \<and> d \<noteq> n \<longrightarrow>
          1 < d \<and> d < n \<and> n mod d = 0"
  proof (intro allI impI)
    fix d k'
    assume res: "pollards_rho n src k = Some (Inr (d, k')) \<and> d \<noteq> n"
    from pollards_rho_result [OF n, of src k] obtain d' a where
      "pollards_rho n src k = Some (Inr (d', k + 2 * a))"
      "d' = n \<or> 1 < d' \<and> d' < n \<and> n mod d' = 0"
      by (elim exE conjE)
    with res show "1 < d \<and> d < n \<and> n mod d = 0"
      by auto
  qed
qed

theorem divisor_validity_witness:
  "(2::int) \<le> 35 \<and> trial_division_python 35 = 5 \<and> pollards_rho 35 (\<lambda>_. 0) 0 = Some (Inr (7, 2))
   \<and> (1::int) < 7 \<and> (7::int) < 35 \<and> (35::int) mod 7 = 0"
proof -
  have t: "trial_division_python 35 = 5" by code_simp
  have r: "pollards_rho 35 (\<lambda>_. 0) 0 = Some (Inr (7, 2))" by code_simp
  from divisor_validity [of 35 "\<lambda>_. 0" 0] r
  have "(1::int) < 7 \<and> (7::int) < 35 \<and> (35::int) mod 7 = 0"
    by simp
  with t r show ?thesis by simp
qed

text \<open>
  C2. For \<open>n \<ge> 2\<close> divisible neither by 2 nor by 3, \<open>pollards_rho\<close> computes what the
  state machine of the specification computes from INIT: the same value and the same
  draws consumed, and the machine reaches an output. Each attempt draws \<open>x\<^sub>0\<close> in
  \<open>[2, n - 1]\<close> and \<open>c\<close> in \<open>[1, n - 1]\<close> and runs the loop from \<open>y = x\<^sub>0\<close> and \<open>g = 1\<close>.
\<close>

theorem rho_refines_spec_machine:
  assumes n: "2 \<le> n" and two: "n mod 2 \<noteq> 0" and three: "n mod 3 \<noteq> 0"
  shows "pollards_rho n src k = map_option Inr (spec_run n src (INIT 0 k))
       \<and> (\<exists>d k'. spec_run n src (INIT 0 k) = Some (d, k'))
       \<and> (\<exists>x0 c. randint src k 2 (n - 1) = Inr (x0, Suc k) \<and> 2 \<le> x0 \<and> x0 \<le> n - 1
              \<and> randint src (Suc k) 1 (n - 1) = Inr (c, k + 2) \<and> 1 \<le> c \<and> c \<le> n - 1
              \<and> rho_attempt n src k = map_option (\<lambda>e. Inr (e, k + 2)) (rho_while n c x0 x0 1))"
proof (intro conjI)
  from n two three have n3: "3 \<le> n"
    using slow_path_ge [of n] by simp
  have "(0::nat) + 5 = RetryBudget"
    by (simp add: RetryBudget_def)
  with n3 have "rho_attempts 5 n src k = map_option Inr (spec_run n src (RETRY 0 k))"
    by (rule spec_attempts)
  also have "spec_run n src (RETRY 0 k) = spec_run n src (INIT 0 k)"
    by (simp add: spec_run_retry RetryBudget_def)
  finally show eq: "pollards_rho n src k = map_option Inr (spec_run n src (INIT 0 k))"
    using two three by (simp add: pollards_rho_def)
  from pollards_rho_result [OF n, of src k] obtain d a where
    "pollards_rho n src k = Some (Inr (d, k + 2 * a))"
    by (elim exE conjE)
  with eq have "spec_run n src (INIT 0 k) = Some (d, k + 2 * a)"
    by (cases "spec_run n src (INIT 0 k)") simp_all
  then show "\<exists>d k'. spec_run n src (INIT 0 k) = Some (d, k')"
    by (intro exI)
  from n3 obtain x0 where x: "randint src k 2 (n - 1) = Inr (x0, Suc k)" "2 \<le> x0" "x0 \<le> n - 1"
    using randint_range [of 2 "n - 1" src k] by auto
  from n3 obtain c where c: "randint src (Suc k) 1 (n - 1) = Inr (c, k + 2)"
      "1 \<le> c" "c \<le> n - 1"
    using randint_range [of 1 "n - 1" src "Suc k"] by auto
  have "rho_attempt n src k = map_option (\<lambda>e. Inr (e, k + 2)) (rho_while n c x0 x0 1)"
    by (simp add: rho_attempt_def x(1) c(1) split: option.split)
  with x c show "\<exists>x0 c. randint src k 2 (n - 1) = Inr (x0, Suc k) \<and> 2 \<le> x0 \<and> x0 \<le> n - 1
              \<and> randint src (Suc k) 1 (n - 1) = Inr (c, k + 2) \<and> 1 \<le> c \<and> c \<le> n - 1
              \<and> rho_attempt n src k = map_option (\<lambda>e. Inr (e, k + 2)) (rho_while n c x0 x0 1)"
    by (intro exI [of _ x0] exI [of _ c] conjI)
qed

theorem rho_refines_spec_machine_witness:
  "(2::int) \<le> 8051 \<and> (8051::int) mod 2 \<noteq> 0 \<and> (8051::int) mod 3 \<noteq> 0
     \<and> pollards_rho 8051 (\<lambda>_. 0) 0 = Some (Inr (97, 2))
     \<and> spec_run 8051 (\<lambda>_. 0) (INIT 0 0) = Some (97, 2)"
proof -
  have s: "spec_run 8051 (\<lambda>_. 0) (INIT 0 0) = Some (97, 2)" by code_simp
  from rho_refines_spec_machine [of 8051 "\<lambda>_. 0" 0] s show ?thesis by simp
qed

text \<open>
  C4. For every prime \<open>n > 3\<close>, \<open>pollards_rho n\<close> returns \<open>n\<close> itself, after all five
  attempts (ten draws): it never returns a false divisor of a prime.
\<close>

theorem pollards_rho_prime:
  "is_prime n \<Longrightarrow> 3 < n \<Longrightarrow> pollards_rho n src k = Some (Inr (n, k + 10))"
proof -
  assume p: "is_prime n" and n: "3 < n"
  from n have n3: "3 \<le> n" and n2: "n \<noteq> 2" by simp_all
  from p n2 have odd: "n mod 2 \<noteq> 0" by (rule is_prime_odd)
  have three: "n mod 3 \<noteq> 0"
  proof -
    from n have mem: "3 \<in> {2..<n}" by simp
    from p have "\<forall>d\<in>{2..<n}. n mod d \<noteq> 0" by (simp add: is_prime_def)
    then show ?thesis using mem by (rule bspec)
  qed
  from rho_attempts_prime [OF p n3, of 5 src k] odd three
  show ?thesis by (simp add: pollards_rho_def)
qed

theorem pollards_rho_prime_witness:
  "is_prime 7 \<and> (3::int) < 7 \<and> pollards_rho 7 (\<lambda>_. 0) 0 = Some (Inr (7, 10))"
proof -
  have p: "is_prime 7" by code_simp
  from pollards_rho_prime [of 7 "\<lambda>_. 0" 0] p show ?thesis by simp
qed

text \<open>
  C5. \<open>pollards_rho\<close> makes at most 5 attempts per call, each with two fresh draws (the
  generator advances by \<open>2 * a\<close> with \<open>a \<le> 5\<close>), and when none of the five attempts
  returns a divisor it returns \<open>n\<close>.
\<close>

theorem retry_budget:
  assumes n: "2 \<le> n"
  shows "(\<exists>d a. pollards_rho n src k = Some (Inr (d, k + 2 * a)) \<and> a \<le> 5)
       \<and> (n mod 2 \<noteq> 0 \<and> n mod 3 \<noteq> 0
            \<and> (\<forall>j<5. \<forall>g k'. rho_attempt n src (k + 2 * j) \<noteq> Some (Inr (Return g, k')))
          \<longrightarrow> pollards_rho n src k = Some (Inr (n, k + 2 * 5)))"
proof (rule conjI)
  from pollards_rho_result [OF n, of src k] obtain d a where
    "pollards_rho n src k = Some (Inr (d, k + 2 * a))" "a \<le> 5"
    by (elim exE conjE)
  then show "\<exists>d a. pollards_rho n src k = Some (Inr (d, k + 2 * a)) \<and> a \<le> 5"
    by (intro exI [of _ d] exI [of _ a] conjI)
next
  show "n mod 2 \<noteq> 0 \<and> n mod 3 \<noteq> 0
            \<and> (\<forall>j<5. \<forall>g k'. rho_attempt n src (k + 2 * j) \<noteq> Some (Inr (Return g, k')))
          \<longrightarrow> pollards_rho n src k = Some (Inr (n, k + 2 * 5))"
  proof (rule impI)
    assume h: "n mod 2 \<noteq> 0 \<and> n mod 3 \<noteq> 0
            \<and> (\<forall>j<5. \<forall>g k'. rho_attempt n src (k + 2 * j) \<noteq> Some (Inr (Return g, k')))"
    with n have "3 \<le> n"
      using slow_path_ge [of n] by simp
    moreover from h
    have "\<forall>j<5. \<forall>g k'. rho_attempt n src (k + 2 * j) \<noteq> Some (Inr (Return g, k'))"
      by (elim conjE)
    ultimately have "rho_attempts 5 n src k = Some (Inr (n, k + 2 * 5))"
      by (rule rho_attempts_all_fail)
    with h show "pollards_rho n src k = Some (Inr (n, k + 2 * 5))"
      by (simp add: pollards_rho_def)
  qed
qed

theorem retry_budget_witness:
  "(2::int) \<le> 7 \<and> (7::int) mod 2 \<noteq> 0 \<and> (7::int) mod 3 \<noteq> 0
     \<and> rho_attempt 7 (\<lambda>_. 0) 0 = Some (Inr (Break, 2))
     \<and> rho_attempt 7 (\<lambda>_. 0) 2 = Some (Inr (Break, 4))
     \<and> rho_attempt 7 (\<lambda>_. 0) 4 = Some (Inr (Break, 6))
     \<and> rho_attempt 7 (\<lambda>_. 0) 6 = Some (Inr (Break, 8))
     \<and> rho_attempt 7 (\<lambda>_. 0) 8 = Some (Inr (Break, 10))
     \<and> pollards_rho 7 (\<lambda>_. 0) 0 = Some (Inr (7, 10))"
proof -
  have att: "rho_attempt 7 (\<lambda>_. 0) j = Some (Inr (Break, j + 2))" for j
    by (simp add: rho_attempt_def randint_def rho_while.simps rho_step_def Let_def)
  then have "\<forall>j<5. \<forall>g k'. rho_attempt 7 (\<lambda>_. 0) (0 + 2 * j) \<noteq> Some (Inr (Return g, k'))"
    by simp
  with retry_budget [of 7 "\<lambda>_. 0" 0]
  have "pollards_rho 7 (\<lambda>_. 0) 0 = Some (Inr (7, 10))"
    by simp
  with att [of 0] att [of 2] att [of 4] att [of 6] att [of 8] show ?thesis
    by simp
qed

text \<open>
  C7. For every even \<open>n > 2\<close>, both \<open>trial_division_python n\<close> and \<open>pollards_rho n\<close>
  return 2.
\<close>

theorem even_fast_path:
  "2 < n \<Longrightarrow> n mod 2 = 0 \<Longrightarrow>
     trial_division_python n = 2 \<and> pollards_rho n src k = Some (Inr (2, k))"
  by (simp add: trial_division_python_def pollards_rho_def)

theorem even_fast_path_witness:
  "(2::int) < 10 \<and> (10::int) mod 2 = 0 \<and> trial_division_python 10 = 2
     \<and> pollards_rho 10 (\<lambda>_. 0) 0 = Some (Inr (2, 0))"
  using even_fast_path [of 10 "\<lambda>_. 0" 0] by simp

text \<open>
  C8. For every odd \<open>n > 3\<close> with \<open>n mod 3 = 0\<close>, \<open>pollards_rho n\<close> returns 3.
\<close>

theorem three_fast_path:
  "3 < n \<Longrightarrow> n mod 3 = 0 \<Longrightarrow> n mod 2 \<noteq> 0 \<Longrightarrow> pollards_rho n src k = Some (Inr (3, k))"
  by (simp add: pollards_rho_def)

theorem three_fast_path_witness:
  "(3::int) < 15 \<and> (15::int) mod 3 = 0 \<and> (15::int) mod 2 \<noteq> 0
     \<and> pollards_rho 15 (\<lambda>_. 0) 0 = Some (Inr (3, 0))"
  using three_fast_path [of 15 "\<lambda>_. 0" 0] by simp

text \<open>
  C9. Every call \<open>pollards_rho n\<close> with \<open>n \<ge> 2\<close> terminates with a value. The loop of an
  attempt always exits, for every start \<open>x\<close> and constant \<open>c\<close>: the tortoise and the
  hare meet after some \<open>m \<ge> 1\<close> iterations, where \<open>g = gcd(0, n) = n \<noteq> 1\<close>.
\<close>

theorem rho_terminates:
  assumes n: "2 \<le> n"
  shows "(\<exists>d k'. pollards_rho n src k = Some (Inr (d, k')))
       \<and> (\<exists>m\<ge>1. (rho_step n c ^^ m) x = (rho_step n c ^^ (2 * m)) x
              \<and> rho_gcd n c x x m = n \<and> n \<noteq> 1)
       \<and> (\<exists>e. rho_while n c x x 1 = Some e)"
proof (intro conjI)
  from pollards_rho_result [OF n, of src k] obtain d a where
    "pollards_rho n src k = Some (Inr (d, k + 2 * a))"
    by (elim exE conjE)
  then show "\<exists>d k'. pollards_rho n src k = Some (Inr (d, k'))"
    by (intro exI)
next
  from n have pos: "0 < n" and n1: "1 < n" by simp_all
  from floyd_meet [OF pos, of c x] obtain m
    where m: "1 \<le> m" "(rho_step n c ^^ m) x = (rho_step n c ^^ (2 * m)) x"
    by (elim exE conjE)
  from m(2) pos have "rho_gcd n c x x m = n"
    by (simp add: rho_gcd_def)
  with m n1 show "\<exists>m\<ge>1. (rho_step n c ^^ m) x = (rho_step n c ^^ (2 * m)) x
              \<and> rho_gcd n c x x m = n \<and> n \<noteq> 1"
    by (intro exI [of _ m]) simp
  from rho_while_first [OF n1 m] obtain i where
    "rho_while n c x x 1 =
       Some (if rho_gcd n c x x i = n then Break else Return (rho_gcd n c x x i))"
    by (elim exE conjE)
  then show "\<exists>e. rho_while n c x x 1 = Some e"
    by (intro exI)
qed

theorem rho_terminates_witness:
  "(2::int) \<le> 35 \<and> pollards_rho 35 (\<lambda>_. 0) 0 = Some (Inr (7, 2))
     \<and> rho_while 35 1 2 2 1 = Some (Return 7)"
proof -
  have r: "pollards_rho 35 (\<lambda>_. 0) 0 = Some (Inr (7, 2))" by code_simp
  have w: "rho_while 35 1 2 2 1 = Some (Return 7)" by code_simp
  from rho_terminates [of 35 "\<lambda>_. 0" 0 1 2] r w show ?thesis by simp
qed

text \<open>
  C10. For every \<open>n \<ge> 2\<close>, \<open>pollards_rho n\<close> returns a value that is at least 2;
  \<open>pollards_rho 2 = 2\<close> and \<open>pollards_rho 3 = 3\<close>: for these two the fast paths return
  \<open>n\<close> itself.
\<close>

theorem pollards_rho_at_least_two:
  "(2 \<le> n \<longrightarrow> (\<exists>d k'. pollards_rho n src k = Some (Inr (d, k')) \<and> 2 \<le> d))
   \<and> pollards_rho 2 src k = Some (Inr (2, k))
   \<and> pollards_rho 3 src k = Some (Inr (3, k))"
proof (intro conjI impI)
  assume n: "2 \<le> n"
  from pollards_rho_result [OF n, of src k] obtain d a where
    res: "pollards_rho n src k = Some (Inr (d, k + 2 * a))"
    and d: "d = n \<or> 1 < d \<and> d < n \<and> n mod d = 0"
    by (elim exE conjE)
  from d n have "2 \<le> d" by auto
  with res show "\<exists>d k'. pollards_rho n src k = Some (Inr (d, k')) \<and> 2 \<le> d"
    by (intro exI [of _ d] exI [of _ "k + 2 * a"] conjI)
next
  show "pollards_rho 2 src k = Some (Inr (2, k))"
    by (simp add: pollards_rho_def)
next
  show "pollards_rho 3 src k = Some (Inr (3, k))"
    by (simp add: pollards_rho_def)
qed

theorem pollards_rho_at_least_two_witness:
  "(2::int) \<le> 35 \<and> pollards_rho 35 (\<lambda>_. 0) 0 = Some (Inr (7, 2)) \<and> (2::int) \<le> 7"
proof -
  have r: "pollards_rho 35 (\<lambda>_. 0) 0 = Some (Inr (7, 2))" by code_simp
  from pollards_rho_at_least_two [of 35 "\<lambda>_. 0" 0] r show ?thesis by simp
qed

end
